theory Spec2Isabelle
  imports Main "HOL-Library.Multiset"
begin

section \<open>The reactive core used by the command processor\<close>

text \<open>
  \<^verbatim>\<open>command_processor.py\<close> is glue over the reactive library \<^verbatim>\<open>rx\<close>, whose code is not
  part of the sources. The notification algebra, the Observable constructor \<^verbatim>\<open>of\<close>, the
  visitor dispatch \<^verbatim>\<open>accept\<close>, subscriptions and the flat-map combinator are therefore
  modelled from the specification (sections 3, 4.1, 4.2, 4.3, 5 and 7); the four functions
  of the file and its top-level statement are translated from the source.
\<close>

subsection \<open>Notifications\<close>

text \<open>Modelled from the spec: the error taxonomy of section 7 (the library's exception
  values are not in the sources).\<close>

datatype cause = WorkerInvocationError | StreamError | TimeoutError

text \<open>Modelled from the spec: section 3, Notification, a closed three-variant value
  (\<^verbatim>\<open>rx\<close>'s notification classes are not in the sources).\<close>

datatype 'a notification = Next 'a | Error cause | Completed

text \<open>Modelled from the spec: the invariant of section 3, zero or more \<open>Next\<close>, then at most
  one terminal event, and nothing after a terminal event.\<close>

fun well_formed :: "'a notification list \<Rightarrow> bool" where
  "well_formed [] = True"
| "well_formed (Next v # ns) = well_formed ns"
| "well_formed (Error e # ns) = (ns = [])"
| "well_formed (Completed # ns) = (ns = [])"

fun is_terminal :: "'a notification \<Rightarrow> bool" where
  "is_terminal (Next v) = False"
| "is_terminal (Error e) = True"
| "is_terminal Completed = True"

text \<open>The payloads of the \<open>Next\<close> events of a notification sequence, in order.\<close>

fun next_payloads :: "'a notification list \<Rightarrow> 'a list" where
  "next_payloads [] = []"
| "next_payloads (Next v # ns) = v # next_payloads ns"
| "next_payloads (Error e # ns) = next_payloads ns"
| "next_payloads (Completed # ns) = next_payloads ns"

subsection \<open>Visitor dispatch\<close>

text \<open>Modelled from the spec: section 4.3, \<open>reduce(notification, on_next, on_error,
  on_completed)\<close>, a total dispatch over the three variants that calls one handler with the
  notification's payload and returns its result (\<^verbatim>\<open>notif.accept\<close> of \<^verbatim>\<open>rx\<close> is not in the
  sources).\<close>

fun accept :: "'a notification \<Rightarrow> ('a \<Rightarrow> 'r) \<Rightarrow> (cause \<Rightarrow> 'r) \<Rightarrow> (unit \<Rightarrow> 'r) \<Rightarrow> 'r" where
  "accept (Next x) on_next on_error on_completed = on_next x"
| "accept (Error err) on_next on_error on_completed = on_error err"
| "accept Completed on_next on_error on_completed = on_completed ()"

text \<open>
  A record of handler invocations. Handlers that thread a log of calls through their
  result (\<open>'r = call list \<Rightarrow> string \<times> call list\<close>) make the number of invocations of each
  handler observable.
\<close>

datatype 'a handler_call = Called_on_next 'a | Called_on_error cause | Called_on_completed

definition logging ::
  "'a handler_call \<Rightarrow> 'r \<Rightarrow> 'a handler_call list \<Rightarrow> 'r \<times> 'a handler_call list" where
  "logging call result log = (result, log @ [call])"

subsection \<open>Observables and subscriptions\<close>

text \<open>Modelled from the spec: section 3, an Observable is a description of the
  notifications it produces for each subscription and owns no state. The description is
  the sequence its producer pushes.\<close>

datatype 'a observable = Observable (emissions: "'a notification list")

text \<open>Modelled from the spec: section 4.1, \<open>of(items...)\<close> emits \<open>Next(item)\<close> for each item
  in the given order, then \<open>Completed\<close> (\<^verbatim>\<open>rx.of\<close> is not in the sources).\<close>

definition rx_of :: "'a list \<Rightarrow> 'a observable" where
  "rx_of items = Observable (map Next items @ [Completed])"

text \<open>Modelled from the spec: sections 3 and 4.1, one subscription is one independent
  execution of the producer: what it has still to push, and whether it is still running,
  has completed, has failed or was cancelled.\<close>

datatype status = Active | Finished | Failed | Cancelled

record 'a subscription =
  pending :: "'a notification list"
  status :: status

definition subscribe :: "'a observable \<Rightarrow> 'a subscription" where
  "subscribe obs = \<lparr>pending = emissions obs, status = Active\<rparr>"

text \<open>Modelled from the spec: one emission of a running subscription; a terminal event
  closes the subscription, so nothing is delivered after it (section 3).\<close>

definition emit :: "'a subscription \<Rightarrow> 'a notification option \<times> 'a subscription" where
  "emit s =
     (if status s \<noteq> Active then (None, s)
      else case pending s of
        [] \<Rightarrow> (None, s)
      | n # rest \<Rightarrow>
          (Some n,
           \<lparr>pending = rest,
            status = (case n of Next v \<Rightarrow> Active | Error e \<Rightarrow> Failed | Completed \<Rightarrow> Finished)\<rparr>))"

text \<open>Modelled from the spec: section 3, invoking a Cancellation handle is idempotent and
  stops further delivery.\<close>

definition cancel :: "'a subscription \<Rightarrow> 'a subscription" where
  "cancel s = (if status s = Active then s\<lparr>status := Cancelled\<rparr> else s)"

text \<open>What a consumer of a plain subscription has received after the producer was given
  \<open>n\<close> turns.\<close>

fun deliveries :: "nat \<Rightarrow> 'a subscription \<Rightarrow> 'a notification list" where
  "deliveries 0 s = []"
| "deliveries (Suc n) s =
     (case emit s of
        (None, s') \<Rightarrow> []
      | (Some ev, s') \<Rightarrow> ev # deliveries n s')"

text \<open>Modelled from the spec: section 4.2, a worker invocation that raises is treated as
  that item's inner stream immediately emitting \<open>Error\<close>; otherwise the inner stream is a
  subscription to the Observable returned.\<close>

fun worker_deliveries :: "nat \<Rightarrow> cause + 'a observable \<Rightarrow> 'a notification list" where
  "worker_deliveries n (Inl e) = take n [Error e]"
| "worker_deliveries n (Inr obs) = deliveries n (subscribe obs)"

subsection \<open>The flat-map combinator\<close>

text \<open>Modelled from the spec: section 4.2, \<open>FlatMap(source, worker)\<close> is itself a lazy
  description: the worker and the source Observable (\<^verbatim>\<open>op.flat_map\<close> is not in the
  sources). The worker is a Python callable: it returns an inner Observable or raises.\<close>

datatype ('a, 'b) flat_mapped =
  FlatMap (fm_worker: "'a \<Rightarrow> cause + 'b observable") (fm_source: "'a observable")

definition flat_map :: "('a \<Rightarrow> cause + 'b observable) \<Rightarrow> 'a observable \<Rightarrow> ('a, 'b) flat_mapped" where
  "flat_map mapper source_obs = FlatMap mapper source_obs"

text \<open>Modelled from the spec: section 3, FlatMap state, created at subscribe time: the
  source subscription, the inner subscriptions spawned so far (the position in the list is
  the ordinal of the worker invocation), and what has been delivered downstream. The set of
  open inner handles, the source-completed flag and the count of open inner streams of the
  spec are read off the statuses.\<close>

record ('a, 'b) flat_map_state =
  worker :: "'a \<Rightarrow> cause + 'b observable"
  source :: "'a subscription"
  inners :: "'b subscription list"
  delivered :: "'b notification list"

definition subscribe_flat_map :: "('a, 'b) flat_mapped \<Rightarrow> ('a, 'b) flat_map_state" where
  "subscribe_flat_map fm =
     \<lparr>worker = fm_worker fm, source = subscribe (fm_source fm), inners = [], delivered = []\<rparr>"

definition source_completed :: "('a, 'b) flat_map_state \<Rightarrow> bool" where
  "source_completed c = (status (source c) = Finished)"

definition open_inners :: "('a, 'b) flat_map_state \<Rightarrow> nat list" where
  "open_inners c = filter (\<lambda>i. status (inners c ! i) = Active) [0..<length (inners c)]"

definition open_count :: "('a, 'b) flat_map_state \<Rightarrow> nat" where
  "open_count c = length (open_inners c)"

text \<open>Modelled from the spec: section 4.2 rule 3, an \<open>Error\<close> is forwarded as the terminal
  event of the merged stream, and the source subscription and every open inner
  subscription are cancelled.\<close>

definition fail :: "cause \<Rightarrow> ('a, 'b) flat_map_state \<Rightarrow> ('a, 'b) flat_map_state" where
  "fail e c =
     c\<lparr>source := cancel (source c),
       inners := map cancel (inners c),
       delivered := delivered c @ [Error e]\<rparr>"

text \<open>Modelled from the spec: section 4.2 rule 4, \<open>Completed\<close> is emitted when the source
  has completed and every inner subscription spawned has itself completed.\<close>

definition all_completed :: "('a, 'b) flat_map_state \<Rightarrow> bool" where
  "all_completed c =
     (source_completed c \<and> list_all (\<lambda>s. status s = Finished) (inners c))"

definition try_complete :: "('a, 'b) flat_map_state \<Rightarrow> ('a, 'b) flat_map_state" where
  "try_complete c = (if all_completed c then c\<lparr>delivered := delivered c @ [Completed]\<rparr> else c)"

text \<open>Modelled from the spec: sections 4.2 and 5. Which stream pushes its next
  notification is the scheduler's choice; delivery to the consumer is serialized, one
  notification at a time. A turn given to a stream that is closed, or has nothing to
  push, changes nothing. Rule 1: a \<open>Next\<close> of the source invokes the worker and subscribes
  to the inner Observable before the next source item is processed; a worker that raises
  counts as an inner stream emitting \<open>Error\<close>. Rule 2: a \<open>Next\<close> of an inner stream is
  forwarded.\<close>

datatype choice = Source | Inner nat

fun step :: "choice \<Rightarrow> ('a, 'b) flat_map_state \<Rightarrow> ('a, 'b) flat_map_state" where
  "step Source c =
     (case emit (source c) of
        (None, s') \<Rightarrow> c
      | (Some (Next a), s') \<Rightarrow>
          (case worker c a of
             Inl e \<Rightarrow> fail e (c\<lparr>source := s'\<rparr>)
           | Inr obs \<Rightarrow> c\<lparr>source := s', inners := inners c @ [subscribe obs]\<rparr>)
      | (Some (Error e), s') \<Rightarrow> fail e (c\<lparr>source := s'\<rparr>)
      | (Some Completed, s') \<Rightarrow> try_complete (c\<lparr>source := s'\<rparr>))"
| "step (Inner i) c =
     (if length (inners c) \<le> i then c
      else case emit (inners c ! i) of
        (None, s') \<Rightarrow> c
      | (Some (Next b), s') \<Rightarrow>
          c\<lparr>inners := (inners c)[i := s'], delivered := delivered c @ [Next b]\<rparr>
      | (Some (Error e), s') \<Rightarrow> fail e (c\<lparr>inners := (inners c)[i := s']\<rparr>)
      | (Some Completed, s') \<Rightarrow> try_complete (c\<lparr>inners := (inners c)[i := s']\<rparr>))"

fun run :: "choice list \<Rightarrow> ('a, 'b) flat_map_state \<Rightarrow> ('a, 'b) flat_map_state" where
  "run [] c = c"
| "run (ch # sched) c = run sched (step ch c)"

text \<open>No stream of the subscription tree has anything left to push.\<close>

definition idle :: "'a subscription \<Rightarrow> bool" where
  "idle s = (fst (emit s) = None)"

definition quiescent :: "('a, 'b) flat_map_state \<Rightarrow> bool" where
  "quiescent c = (idle (source c) \<and> list_all idle (inners c))"

text \<open>The stream that is given the turn pushes \<open>Error e\<close>: the source does, or the worker
  raises \<open>e\<close> on the source's item, or the chosen inner stream does.\<close>

fun pushes_error :: "choice \<Rightarrow> ('a, 'b) flat_map_state \<Rightarrow> cause \<Rightarrow> bool" where
  "pushes_error Source c e =
     (case fst (emit (source c)) of
        None \<Rightarrow> False
      | Some (Next a) \<Rightarrow> worker c a = Inl e
      | Some (Error e') \<Rightarrow> e' = e
      | Some Completed \<Rightarrow> False)"
| "pushes_error (Inner i) c e =
     (i < length (inners c) \<and> fst (emit (inners c ! i)) = Some (Error e))"

section \<open>The command processor\<close>

text \<open>Python's \<^verbatim>\<open>str.startswith(prefix)\<close>.\<close>

definition startswith :: "string \<Rightarrow> string \<Rightarrow> bool" where
  "startswith s p = (take (length p) s = p)"

text \<open>
  \<^verbatim>\<open>process_command\<close> (lines 6 to 13). A Python call either returns or raises, so the
  result is a sum; the function has no raising branch. \<^verbatim>\<open>time.sleep(10.0)\<close> in the
  \<^verbatim>\<open>sleep\<close> branch only delays the return and has no effect on the value returned; the
  delay is real time and is not part of the model. \<^verbatim>\<open>"...{}...".format(cmd)\<close> splices
  \<^verbatim>\<open>cmd\<close> into the template.
\<close>

definition process_command :: "string \<Rightarrow> cause + string observable" where
  "process_command cmd =
     (if startswith cmd ''echo'' then Inr (rx_of [cmd])
      else if startswith cmd ''sleep'' then Inr (rx_of [''awake''])
      else Inr (rx_of [''Invalid command '' @ cmd @ '' provided.'']))"

text \<open>\<^verbatim>\<open>process_command_timeout\<close> (lines 16 and 17).\<close>

definition process_command_timeout :: "string \<Rightarrow> cause + string observable" where
  "process_command_timeout cmd = process_command cmd"

text \<open>\<^verbatim>\<open>process_errors\<close> (lines 20 to 25).\<close>

definition process_errors :: "string notification \<Rightarrow> string" where
  "process_errors notif =
     accept notif
       (\<lambda>x. x)
       (\<lambda>err. ''Your command could not be processed. Please try again.'')
       (\<lambda>_. ''No more commands to process. Shutting down!'')"

text \<open>
  \<^verbatim>\<open>process_errors\<close> with each of its three handlers recording its own invocation: the
  same dispatch, at the result type of state-passing handlers.
\<close>

definition process_errors_logged ::
  "string notification \<Rightarrow> string handler_call list \<Rightarrow> string \<times> string handler_call list" where
  "process_errors_logged notif =
     accept notif
       (\<lambda>x. logging (Called_on_next x) x)
       (\<lambda>err. logging (Called_on_error err)
          ''Your command could not be processed. Please try again.'')
       (\<lambda>_. logging Called_on_completed ''No more commands to process. Shutting down!'')"

text \<open>\<^verbatim>\<open>process_commands\<close> (lines 28 to 31): the pipe has the single stage
  \<^verbatim>\<open>op.flat_map(process_command_timeout)\<close>.\<close>

definition process_commands :: "string observable \<Rightarrow> (string, string) flat_mapped" where
  "process_commands commands = flat_map process_command_timeout commands"

text \<open>Line 34: \<^verbatim>\<open>process_commands(rx.of(...)).subscribe(print)\<close>. The consumer is
  subscribed to the stream that \<^verbatim>\<open>process_commands\<close> returns, with no further stage in
  between; what that subscription delivers is a function of the schedule of the
  subscription tree.\<close>

definition run_program :: "string list \<Rightarrow> choice list \<Rightarrow> (string, string) flat_map_state" where
  "run_program cmds sched = run sched (subscribe_flat_map (process_commands (rx_of cmds)))"

definition main_commands :: "string list" where
  "main_commands = [''echo before'', ''sleep'', ''echo after'']"

text \<open>The schedule of a single thread that lets the source run to its end and then each
  inner stream in the order of subscription.\<close>

definition serial_schedule :: "nat \<Rightarrow> choice list" where
  "serial_schedule n =
     replicate (Suc n) Source @ concat (map (\<lambda>i. [Inner i, Inner i]) [0..<n])"

text \<open>The result string of the three branches of \<^verbatim>\<open>process_command\<close>, by itself.\<close>

definition command_result :: "string \<Rightarrow> string" where
  "command_result cmd =
     (if startswith cmd ''echo'' then cmd
      else if startswith cmd ''sleep'' then ''awake''
      else ''Invalid command '' @ cmd @ '' provided.'')"

section \<open>Auxiliary definitions\<close>

text \<open>The handler that the dispatch has to call for a notification.\<close>

fun call_of :: "'a notification \<Rightarrow> 'a handler_call" where
  "call_of (Next x) = Called_on_next x"
| "call_of (Error err) = Called_on_error err"
| "call_of Completed = Called_on_completed"

text \<open>Two subscriptions, with the producers' turns interleaved: \<open>True\<close> gives the turn to
  the first. The result is what each consumer has received.\<close>

fun deliveries_two ::
  "bool list \<Rightarrow> 'a subscription \<Rightarrow> 'a subscription \<Rightarrow> 'a notification list \<times> 'a notification list" where
  "deliveries_two [] s1 s2 = ([], [])"
| "deliveries_two (first # turns) s1 s2 =
     (if first then
        (case emit s1 of
           (None, s1') \<Rightarrow> deliveries_two turns s1 s2
         | (Some ev, s1') \<Rightarrow> (ev # fst (deliveries_two turns s1' s2), snd (deliveries_two turns s1' s2)))
      else
        (case emit s2 of
           (None, s2') \<Rightarrow> deliveries_two turns s1 s2
         | (Some ev, s2') \<Rightarrow> (fst (deliveries_two turns s1 s2'), ev # snd (deliveries_two turns s1 s2'))))"

text \<open>An example with a failing inner stream: the worker's Observable for item \<open>0\<close> emits
  one value and then \<open>Error\<close>.\<close>

definition failing_example :: "(nat, string) flat_mapped" where
  "failing_example =
     flat_map (\<lambda>n. if n = 0 then Inr (Observable [Next ''a'', Error TimeoutError])
                    else Inr (rx_of [''b'']))
       (rx_of [0, 1])"

text \<open>No stream of the subscription tree is running any more.\<close>

definition closed_tree :: "('a, 'b) flat_map_state \<Rightarrow> bool" where
  "closed_tree c = (status (source c) \<noteq> Active \<and> list_all (\<lambda>s. status s \<noteq> Active) (inners c))"

text \<open>A terminal event has been delivered.\<close>

definition terminated :: "'a notification list \<Rightarrow> bool" where
  "terminated ns = list_ex is_terminal ns"

text \<open>The invariant of every flat-map subscription: the delivered sequence is well
  formed, a delivered terminal event has closed every stream, and \<open>Completed\<close> has been
  delivered only with the source and all inner subscriptions completed.\<close>

definition tree_inv :: "('a, 'b) flat_map_state \<Rightarrow> bool" where
  "tree_inv c = (well_formed (delivered c) \<and> (terminated (delivered c) \<longrightarrow> closed_tree c) \<and>
     (Completed \<in> set (delivered c) \<longrightarrow> all_completed c))"

text \<open>A stream that cannot fail: while it runs it has only \<open>Next\<close> events and a final
  \<open>Completed\<close> to push.\<close>

fun ends_completed :: "'a notification list \<Rightarrow> bool" where
  "ends_completed [] = False"
| "ends_completed (Next v # ns) = ends_completed ns"
| "ends_completed (Error e # ns) = False"
| "ends_completed (Completed # ns) = (ns = [])"

definition healthy :: "'a subscription \<Rightarrow> bool" where
  "healthy s = (status s = Active \<and> ends_completed (pending s) \<or> status s = Finished \<and> pending s = [])"

text \<open>The payloads the open inner streams have still to push.\<close>

definition backlog :: "('a, 'b) flat_map_state \<Rightarrow> 'b multiset" where
  "backlog c = sum_list (map (\<lambda>s. mset (next_payloads (pending s))) (inners c))"

text \<open>The invariant of a flat-map subscription whose worker answers each remaining
  source item \<open>a\<close> with \<open>of(f a)\<close>: no stream can fail, every result is either delivered, or
  in the backlog of an inner stream, or still to be produced from a source item, and the
  delivered sequence ends with \<open>Completed\<close> exactly when everything has completed.\<close>

definition flow_inv :: "('a \<Rightarrow> 'b) \<Rightarrow> 'b multiset \<Rightarrow> ('a, 'b) flat_map_state \<Rightarrow> bool" where
  "flow_inv f M c =
     ((\<forall>a\<in>set (next_payloads (pending (source c))). worker c a = Inr (rx_of [f a])) \<and>
      healthy (source c) \<and> list_all healthy (inners c) \<and>
      mset (next_payloads (delivered c)) + backlog c
        + image_mset f (mset (next_payloads (pending (source c)))) = M \<and>
      delivered c = map Next (next_payloads (delivered c))
        @ (if all_completed c then [Completed] else []))"

text \<open>An inner subscription as the worker's \<open>of(f a)\<close> starts it, and a completed one.\<close>

definition fresh :: "('a \<Rightarrow> 'b) \<Rightarrow> 'a \<Rightarrow> 'b subscription" where
  "fresh f a = \<lparr>pending = [Next (f a), Completed], status = Active\<rparr>"

definition finished_sub :: "'b subscription" where
  "finished_sub = \<lparr>pending = [], status = Finished\<rparr>"

section \<open>Subscriptions\<close>

lemma process_command_single:
  "\<exists>r. process_command cmd = Inr (rx_of [r])"
  by (auto simp: process_command_def)

lemma deliveries_rx_of:
  "deliveries n (subscribe (rx_of items)) = take n (map Next items @ [Completed])"
proof -
  have step: "deliveries n \<lparr>pending = map Next xs @ [Completed], status = Active\<rparr>
      = take n (map Next xs @ [Completed])" for xs :: "'a list" and n
  proof (induction xs arbitrary: n)
    case Nil
    show ?case
    proof (cases n)
      case 0
      then show ?thesis by simp
    next
      case (Suc m)
      then show ?thesis by (cases m) (simp_all add: emit_def)
    qed
  next
    case (Cons x xs)
    show ?case
    proof (cases n)
      case 0
      then show ?thesis by simp
    next
      case (Suc m)
      then show ?thesis using Cons.IH [of m] by (simp add: emit_def)
    qed
  qed
  show ?thesis by (simp add: subscribe_def rx_of_def step)
qed

lemma emit_inactive: "status s \<noteq> Active \<Longrightarrow> emit s = (None, s)"
  by (simp add: emit_def)

lemma emit_Some_status:
  "emit s = (Some n, s') \<Longrightarrow> status s = Active \<and> pending s = n # pending s' \<and>
     status s' = (case n of Next v \<Rightarrow> Active | Error e \<Rightarrow> Failed | Completed \<Rightarrow> Finished)"
  by (auto simp: emit_def split: if_splits list.splits)

lemma cancel_not_active: "status (cancel s) \<noteq> Active"
  by (simp add: cancel_def)

lemma closed_tree_step: "closed_tree c \<Longrightarrow> step ch c = c"
  by (cases ch) (auto simp: closed_tree_def emit_inactive list_all_length)

lemma closed_tree_run: "closed_tree c \<Longrightarrow> run sched c = c"
  by (induction sched) (simp_all add: closed_tree_step)

lemma closed_tree_fail: "closed_tree (fail e c)"
  by (simp add: closed_tree_def fail_def cancel_not_active list_all_iff)

lemma all_completed_closed: "all_completed c \<Longrightarrow> closed_tree c"
  by (auto simp: all_completed_def closed_tree_def source_completed_def list_all_iff)

lemma well_formed_snoc:
  "well_formed ns \<Longrightarrow> \<not> terminated ns \<Longrightarrow> well_formed (ns @ [n])"
  by (induction ns rule: well_formed.induct) (cases n; simp_all add: terminated_def)+

lemma not_terminated_no_Completed: "\<not> terminated ns \<Longrightarrow> Completed \<notin> set ns"
  by (auto simp: terminated_def list_ex_iff)

lemma terminated_snoc: "terminated (ns @ [n]) = (terminated ns \<or> is_terminal n)"
  by (auto simp: terminated_def)

lemma tree_inv_fail:
  "well_formed (delivered c) \<Longrightarrow> \<not> terminated (delivered c) \<Longrightarrow> tree_inv (fail e c)"
  using closed_tree_fail [of e c]
  by (simp add: tree_inv_def well_formed_snoc not_terminated_no_Completed) (simp add: fail_def well_formed_snoc not_terminated_no_Completed)

lemma tree_inv_try_complete:
  "well_formed (delivered c) \<Longrightarrow> \<not> terminated (delivered c) \<Longrightarrow> tree_inv (try_complete c)"
  by (auto simp: tree_inv_def try_complete_def well_formed_snoc not_terminated_no_Completed
      terminated_snoc all_completed_closed all_completed_def source_completed_def)

lemma tree_inv_step: "tree_inv c \<Longrightarrow> tree_inv (step ch c)"
proof (cases "terminated (delivered c)")
  case True
  assume "tree_inv c"
  with True have "closed_tree c" by (simp add: tree_inv_def)
  then show ?thesis using \<open>tree_inv c\<close> by (simp add: closed_tree_step)
next
  case False
  assume inv: "tree_inv c"
  then have wf: "well_formed (delivered c)" by (simp add: tree_inv_def)
  show ?thesis
  proof (cases ch)
    case Source
    show ?thesis
      using inv wf False unfolding Source
      by (auto split: prod.splits option.splits notification.splits sum.splits
          intro!: tree_inv_fail tree_inv_try_complete)
        (simp add: tree_inv_def terminated_snoc not_terminated_no_Completed)
  next
    case (Inner i)
    show ?thesis
      using inv wf False unfolding Inner
      by (auto split: prod.splits option.splits notification.splits sum.splits
          intro!: tree_inv_fail tree_inv_try_complete)
        (simp add: tree_inv_def well_formed_snoc terminated_snoc not_terminated_no_Completed)
  qed
qed

lemma tree_inv_run: "tree_inv c \<Longrightarrow> tree_inv (run sched c)"
  by (induction sched arbitrary: c) (simp_all add: tree_inv_step)

lemma tree_inv_subscribe: "tree_inv (subscribe_flat_map fm)"
  by (simp add: tree_inv_def subscribe_flat_map_def terminated_def)

lemma deliveries_inactive: "status s \<noteq> Active \<Longrightarrow> deliveries n s = []"
  by (cases n) (simp_all add: emit_def)

lemma well_formed_deliveries: "well_formed (deliveries n s)"
proof (induction n arbitrary: s)
  case 0
  show ?case by simp
next
  case (Suc n)
  show ?case
  proof (cases "emit s")
    case (Pair ev s')
    show ?thesis
    proof (cases ev)
      case None
      with Pair show ?thesis by simp
    next
      case (Some x)
      with Pair have st: "status s' = (case x of Next v \<Rightarrow> Active | Error e \<Rightarrow> Failed | Completed \<Rightarrow> Finished)"
        using emit_Some_status [of s x s'] by simp
      show ?thesis using Pair Some st Suc.IH [of s']
        by (cases x) (simp_all add: deliveries_inactive)
    qed
  qed
qed

lemma well_formed_terminal_last:
  "well_formed ns \<Longrightarrow> i < length ns \<Longrightarrow> is_terminal (ns ! i) \<Longrightarrow> Suc i = length ns"
proof (induction ns arbitrary: i rule: well_formed.induct)
  case 1
  then show ?case by simp
next
  case (2 v ns)
  then show ?case by (cases i) simp_all
next
  case (3 e ns)
  then show ?case by simp
next
  case (4 ns)
  then show ?case by simp
qed

lemma well_formed_terminal_count: "well_formed ns \<Longrightarrow> length (filter is_terminal ns) \<le> 1"
  by (induction ns rule: well_formed.induct) simp_all

lemma well_formed_open:
  "well_formed ns \<Longrightarrow> \<not> terminated ns \<Longrightarrow> ns = map Next (next_payloads ns)"
  by (induction ns rule: well_formed.induct) (simp_all add: terminated_def)

lemma deliveries_idle: "fst (emit s) = None \<Longrightarrow> deliveries n s = []"
  by (cases n) (auto split: prod.splits)

lemma deliveries_two_independent:
  "deliveries_two turns s1 s2
     = (deliveries (length (filter (\<lambda>b. b) turns)) s1, deliveries (length (filter Not turns)) s2)"
proof (induction turns arbitrary: s1 s2)
  case Nil
  show ?case by simp
next
  case (Cons b turns)
  show ?case
  proof (cases b)
    case True
    show ?thesis
    proof (cases "emit s1")
      case (Pair ev s1')
      then show ?thesis using True Cons.IH [of s1 s2] Cons.IH [of s1' s2] deliveries_idle [of s1]
        by (cases ev) simp_all
    qed
  next
    case False
    show ?thesis
    proof (cases "emit s2")
      case (Pair ev s2')
      then show ?thesis using False Cons.IH [of s1 s2] Cons.IH [of s1 s2'] deliveries_idle [of s2]
        by (cases ev) simp_all
    qed
  qed
qed

section \<open>The flat-map state machine\<close>

lemma pushes_error_open: "pushes_error ch c e \<Longrightarrow> \<not> closed_tree c"
  by (cases ch) (auto simp: closed_tree_def emit_inactive list_all_length
      split: option.splits notification.splits)

lemma pushes_error_step:
  assumes "pushes_error ch c e"
  shows "\<exists>c0. step ch c = fail e c0 \<and> delivered c0 = delivered c \<and>
     length (inners c0) = length (inners c) \<and>
     (\<forall>j<length (inners c). ch \<noteq> Inner j \<longrightarrow> inners c0 ! j = inners c ! j) \<and>
     (\<forall>i. ch = Inner i \<longrightarrow> source c0 = source c) \<and>
     (ch = Source \<longrightarrow> (status (source c0) = Active \<and> (\<exists>a. fst (emit (source c)) = Some (Next a)))
        \<or> (status (source c0) = Failed \<and> fst (emit (source c)) = Some (Error e)))"
proof (cases ch)
  case Source
  obtain ev s' where em: "emit (source c) = (ev, s')" by (cases "emit (source c)")
  with assms Source obtain n where ev: "ev = Some n" by (cases ev) auto
  from em ev have st: "status s' = (case n of Next v \<Rightarrow> Active | Error e \<Rightarrow> Failed | Completed \<Rightarrow> Finished)"
    using emit_Some_status [of "source c" n s'] by simp
  show ?thesis
    using assms em ev st unfolding Source
    by (cases n) (auto intro!: exI [of _ "c\<lparr>source := s'\<rparr>"])
next
  case (Inner i)
  from assms Inner have i: "i < length (inners c)"
    and em: "fst (emit (inners c ! i)) = Some (Error e)" by simp_all
  obtain s' where em': "emit (inners c ! i) = (Some (Error e), s')"
    using em by (cases "emit (inners c ! i)") simp
  show ?thesis
    using i em' unfolding Inner
    by (auto intro!: exI [of _ "c\<lparr>inners := (inners c)[i := s']\<rparr>"])
qed

lemma fail_fields:
  "delivered (fail e c) = delivered c @ [Error e]"
  "source (fail e c) = cancel (source c)"
  "inners (fail e c) = map cancel (inners c)"
  by (simp_all add: fail_def)

lemma cancel_active: "status s = Active \<Longrightarrow> status (cancel s) = Cancelled"
  by (simp add: cancel_def)

lemma all_completed_open_count: "all_completed c \<Longrightarrow> open_count c = 0"
  by (auto simp: all_completed_def open_count_def open_inners_def list_all_length filter_empty_conv)

lemma next_payloads_append: "next_payloads (xs @ ys) = next_payloads xs @ next_payloads ys"
  by (induction xs rule: next_payloads.induct) simp_all

lemma next_payloads_map_Next: "next_payloads (map Next xs) = xs"
  by (induction xs) simp_all

lemma sum_list_map_update:
  fixes g :: "'a \<Rightarrow> 'b::comm_monoid_add"
  shows "i < length xs \<Longrightarrow> sum_list (map g (xs[i := y])) + g (xs ! i) = sum_list (map g xs) + g y"
proof (induction xs arbitrary: i)
  case Nil
  then show ?case by simp
next
  case (Cons x xs)
  show ?case
  proof (cases i)
    case 0
    then show ?thesis by (simp add: ac_simps)
  next
    case (Suc j)
    with Cons.prems have "j < length xs" by simp
    from Cons.IH [OF this] show ?thesis using Suc by (simp add: ac_simps)
  qed
qed

lemma healthy_emit_cases:
  assumes "healthy s"
  shows "emit s = (None, s) \<and> status s = Finished \<and> pending s = []
    \<or> (\<exists>v rest. emit s = (Some (Next v), \<lparr>pending = rest, status = Active\<rparr>) \<and> status s = Active
          \<and> pending s = Next v # rest \<and> ends_completed rest)
    \<or> (emit s = (Some Completed, \<lparr>pending = [], status = Finished\<rparr>) \<and> status s = Active
          \<and> pending s = [Completed])"
proof (cases "status s = Active")
  case False
  with assms show ?thesis by (simp add: healthy_def emit_def)
next
  case True
  with assms have e: "ends_completed (pending s)" by (simp add: healthy_def)
  show ?thesis
  proof (cases "pending s")
    case Nil
    with e show ?thesis by simp
  next
    case (Cons n rest)
    with e True show ?thesis by (cases n) (simp_all add: emit_def)
  qed
qed

lemma healthy_idle: "healthy s \<Longrightarrow> idle s \<Longrightarrow> status s = Finished \<and> pending s = []"
  using healthy_emit_cases [of s] by (auto simp: idle_def)

lemma worker_step [simp]: "worker (step ch c) = worker c"
  by (cases ch) (auto simp: fail_def try_complete_def
      split: prod.splits option.splits notification.splits sum.splits)

lemma worker_run [simp]: "worker (run sched c) = worker c"
  by (induction sched arbitrary: c) simp_all

lemma healthy_fresh: "healthy (subscribe (rx_of [r]))"
  by (simp add: healthy_def subscribe_def rx_of_def)

lemma flow_inv_not_completed:
  "flow_inv f M c \<Longrightarrow> \<not> all_completed c \<Longrightarrow> delivered c = map Next (next_payloads (delivered c))"
  by (simp add: flow_inv_def)

lemma flow_inv_step_source:
  assumes inv: "flow_inv f M c"
  shows "flow_inv f M (step Source c)"
proof -
  from inv have h: "healthy (source c)" by (simp add: flow_inv_def)
  from healthy_emit_cases [OF h] show ?thesis
  proof (elim disjE exE conjE)
    assume "emit (source c) = (None, source c)"
    then show ?thesis using inv by simp
  next
    fix a rest
    assume e: "emit (source c) = (Some (Next a), \<lparr>pending = rest, status = Active\<rparr>)"
      and st: "status (source c) = Active" and p: "pending (source c) = Next a # rest"
      and ec: "ends_completed rest"
    from inv p have w: "worker c a = Inr (rx_of [f a])" by (simp add: flow_inv_def)
    have nc: "\<not> all_completed c" using st by (simp add: all_completed_def source_completed_def)
    have d: "delivered c = map Next (next_payloads (delivered c))"
      using flow_inv_not_completed [OF inv nc] .
    have hs: "healthy \<lparr>pending = rest, status = Active\<rparr>" using ec by (simp add: healthy_def)
    have hn: "healthy (subscribe (rx_of [f a]))" by (rule healthy_fresh)
    have bn: "mset (next_payloads (pending (subscribe (rx_of [f a])))) = {#f a#}"
      by (simp add: subscribe_def rx_of_def)
    from inv p have m: "mset (next_payloads (delivered c)) + backlog c
        + image_mset f (mset (next_payloads rest)) + {#f a#} = M"
      by (simp add: flow_inv_def)
    from inv p have wr: "\<forall>x\<in>set (next_payloads rest). worker c x = Inr (rx_of [f x])"
      by (simp add: flow_inv_def)
    from inv have hi: "list_all healthy (inners c)" by (simp add: flow_inv_def)
    show ?thesis
      using e w d hs hn bn m wr hi
      by (simp add: flow_inv_def backlog_def all_completed_def source_completed_def)
  next
    assume e: "emit (source c) = (Some Completed, \<lparr>pending = [], status = Finished\<rparr>)"
      and st: "status (source c) = Active" and p: "pending (source c) = [Completed]"
    have nc: "\<not> all_completed c" using st by (simp add: all_completed_def source_completed_def)
    have d: "delivered c = map Next (next_payloads (delivered c))"
      using flow_inv_not_completed [OF inv nc] .
    from inv p have m: "mset (next_payloads (delivered c)) + backlog c = M"
      by (simp add: flow_inv_def)
    from inv have hi: "list_all healthy (inners c)" by (simp add: flow_inv_def)
    show ?thesis
      using e d m hi
      by (simp add: flow_inv_def try_complete_def backlog_def healthy_def
          all_completed_def source_completed_def next_payloads_append)
  qed
qed

lemma flow_inv_step_inner:
  assumes inv: "flow_inv f M c"
  shows "flow_inv f M (step (Inner i) c)"
proof (cases "i < length (inners c)")
  case False
  then show ?thesis using inv by simp
next
  case True
  from inv True have h: "healthy (inners c ! i)" by (simp add: flow_inv_def list_all_length)
  from healthy_emit_cases [OF h] show ?thesis
  proof (elim disjE exE conjE)
    assume "emit (inners c ! i) = (None, inners c ! i)"
    then show ?thesis using inv True by simp
  next
    fix b rest
    assume e: "emit (inners c ! i) = (Some (Next b), \<lparr>pending = rest, status = Active\<rparr>)"
      and st: "status (inners c ! i) = Active" and p: "pending (inners c ! i) = Next b # rest"
      and ec: "ends_completed rest"
    let ?s' = "\<lparr>pending = rest, status = Active\<rparr>"
    have nc: "\<not> all_completed c" using st True
      by (auto simp: all_completed_def list_all_length)
    have nc': "\<not> list_all (\<lambda>s. status s = Finished) ((inners c)[i := ?s'])" using True
      by (auto simp: list_all_length nth_list_update intro!: exI [of _ i])
    have hl: "list_all healthy ((inners c)[i := ?s'])" using inv True ec
      by (auto simp: flow_inv_def list_all_length nth_list_update healthy_def)
    have bl: "sum_list (map (\<lambda>s. mset (next_payloads (pending s))) ((inners c)[i := ?s'])) + {#b#}
        = backlog c"
      using sum_list_map_update [OF True, of "\<lambda>s. mset (next_payloads (pending s))" ?s'] p
      by (simp add: backlog_def)
    have d: "delivered c = map Next (next_payloads (delivered c))"
      using flow_inv_not_completed [OF inv nc] .
    show ?thesis
      using inv e True nc' hl bl [symmetric] d
      by (simp add: flow_inv_def all_completed_def backlog_def next_payloads_append)
  next
    assume e: "emit (inners c ! i) = (Some Completed, \<lparr>pending = [], status = Finished\<rparr>)"
      and st: "status (inners c ! i) = Active" and p: "pending (inners c ! i) = [Completed]"
    let ?s' = "\<lparr>pending = [], status = Finished\<rparr> :: 'b subscription"
    have nc: "\<not> all_completed c" using st True
      by (auto simp: all_completed_def list_all_length)
    have hl: "list_all healthy ((inners c)[i := ?s'])" using inv True
      by (auto simp: flow_inv_def list_all_length nth_list_update healthy_def)
    have bl: "sum_list (map (\<lambda>s. mset (next_payloads (pending s))) ((inners c)[i := ?s']))
        = backlog c"
      using sum_list_map_update [OF True, of "\<lambda>s. mset (next_payloads (pending s))" ?s'] p
      by (simp add: backlog_def)
    have d: "delivered c = map Next (next_payloads (delivered c))"
      using flow_inv_not_completed [OF inv nc] .
    show ?thesis
      using inv e True hl bl d
      by (simp add: flow_inv_def try_complete_def all_completed_def source_completed_def
          backlog_def next_payloads_append)
  qed
qed

lemma flow_inv_step: "flow_inv f M c \<Longrightarrow> flow_inv f M (step ch c)"
  by (cases ch) (simp_all only: flow_inv_step_source flow_inv_step_inner)

lemma flow_inv_run: "flow_inv f M c \<Longrightarrow> flow_inv f M (run sched c)"
  by (induction sched arbitrary: c) (simp_all add: flow_inv_step)

lemma flow_inv_subscribe:
  assumes "\<forall>a\<in>set S. w a = Inr (rx_of [f a])"
  shows "flow_inv f (image_mset f (mset S)) (subscribe_flat_map (flat_map w (rx_of S)))"
proof -
  have "ends_completed (map Next xs @ [Completed])" for xs :: "'a list"
    by (induction xs) simp_all
  then show ?thesis using assms
    by (simp add: flow_inv_def subscribe_flat_map_def flat_map_def subscribe_def rx_of_def
        healthy_def backlog_def all_completed_def source_completed_def
        next_payloads_append next_payloads_map_Next)
qed

lemma flow_inv_quiescent:
  assumes inv: "flow_inv f M c" and q: "quiescent c"
  shows "all_completed c \<and> delivered c = map Next (next_payloads (delivered c)) @ [Completed]
     \<and> mset (next_payloads (delivered c)) = M"
proof -
  from inv q have s: "status (source c) = Finished" "pending (source c) = []"
    using healthy_idle [of "source c"] by (simp_all add: flow_inv_def quiescent_def)
  from inv q have i: "\<forall>s\<in>set (inners c). status s = Finished \<and> pending s = []"
    using healthy_idle by (auto simp: flow_inv_def quiescent_def list_all_iff)
  have "(\<forall>s\<in>set xs. pending s = []) \<Longrightarrow>
      sum_list (map (\<lambda>s. mset (next_payloads (pending s))) xs) = {#}" for xs :: "'b subscription list"
    by (induction xs) simp_all
  with i have b: "backlog c = {#}"
    unfolding backlog_def by blast
  have ac: "all_completed c" using s i
    by (simp add: all_completed_def source_completed_def list_all_iff)
  show ?thesis using inv s b ac by (simp add: flow_inv_def)
qed

lemma flow_inv_no_error: "flow_inv f M c \<Longrightarrow> Error e \<notin> set (delivered c)"
proof
  assume inv: "flow_inv f M c" and "Error e \<in> set (delivered c)"
  then have "Error e \<in> set (map Next (next_payloads (delivered c))
      @ (if all_completed c then [Completed] else []))"
    by (simp add: flow_inv_def)
  then show False by (auto split: if_splits)
qed

lemma flow_inv_no_pushes_error: "flow_inv f M c \<Longrightarrow> \<not> pushes_error ch c e"
proof (cases ch)
  case Source
  assume inv: "flow_inv f M c"
  then have h: "healthy (source c)" by (simp add: flow_inv_def)
  from healthy_emit_cases [OF h] inv show ?thesis unfolding Source
    by (auto simp: flow_inv_def)
next
  case (Inner i)
  assume inv: "flow_inv f M c"
  show ?thesis
  proof (cases "i < length (inners c)")
    case True
    with inv have h: "healthy (inners c ! i)" by (simp add: flow_inv_def list_all_length)
    from healthy_emit_cases [OF h] show ?thesis unfolding Inner by auto
  next
    case False
    then show ?thesis unfolding Inner by simp
  qed
qed

lemma run_append: "run (xs @ ys) c = run ys (run xs c)"
  by (induction xs arbitrary: c) simp_all

lemma emit_fresh:
  "emit (fresh f a) = (Some (Next (f a)), \<lparr>pending = [Completed], status = Active\<rparr>)"
  by (simp add: fresh_def emit_def)

lemma status_finished_sub: "status finished_sub = Finished"
  by (simp add: finished_sub_def)

lemma emit_last:
  "emit \<lparr>pending = [Completed], status = Active\<rparr> = (Some Completed, finished_sub)"
  by (simp add: emit_def finished_sub_def)

lemma all_finished_replicate:
  "list_all (\<lambda>s. status s = Finished) (replicate n finished_sub)"
  by (simp add: list_all_iff finished_sub_def)

lemma all_finished_fresh:
  "list_all (\<lambda>s. status s = Finished) (map (fresh f) T) = (T = [])"
  by (cases T) (auto simp: list_all_iff fresh_def)

lemma nth_after_replicate: "(replicate n x @ y # ys) ! n = y"
  by (metis length_replicate nth_append_length)

lemma update_after_replicate: "(replicate n x @ y # ys)[n := z] = replicate n x @ z # ys"
  by (metis length_replicate list_update_length)

lemma source_phase:
  assumes "\<forall>a\<in>set T. w a = Inr (rx_of [f a])"
  shows "run (replicate (length T) Source)
      \<lparr>worker = w, source = \<lparr>pending = map Next T @ [Completed], status = Active\<rparr>,
       inners = map (fresh f) P, delivered = []\<rparr>
    = \<lparr>worker = w, source = \<lparr>pending = [Completed], status = Active\<rparr>,
       inners = map (fresh f) (P @ T), delivered = []\<rparr>"
  using assms
proof (induction T arbitrary: P)
  case Nil
  show ?case by simp
next
  case (Cons a T)
  from Cons.prems have w: "w a = Inr (rx_of [f a])" and rest: "\<forall>x\<in>set T. w x = Inr (rx_of [f x])"
    by simp_all
  show ?case
    using Cons.IH [OF rest, of "P @ [a]"] w
    by (simp add: emit_def subscribe_def rx_of_def fresh_def)
qed

lemma source_end:
  "step Source \<lparr>worker = w, source = \<lparr>pending = [Completed], status = Active\<rparr>,
       inners = map (fresh f) T, delivered = []\<rparr>
   = \<lparr>worker = w, source = finished_sub, inners = replicate 0 finished_sub @ map (fresh f) T,
       delivered = map Next [] @ (if T = [] then [Completed] else [])\<rparr>"
  by (cases T) (simp_all add: emit_def try_complete_def all_completed_def source_completed_def
      finished_sub_def fresh_def)

lemma inner_phase:
  "run (concat (map (\<lambda>i. [Inner i, Inner i]) [length D..<length D + length T]))
      \<lparr>worker = w, source = finished_sub,
       inners = replicate (length D) finished_sub @ map (fresh f) T,
       delivered = map Next D @ (if T = [] then [Completed] else [])\<rparr>
   = \<lparr>worker = w, source = finished_sub,
       inners = replicate (length D + length T) finished_sub,
       delivered = map Next (D @ map f T) @ [Completed]\<rparr>"
proof (induction T arbitrary: D)
  case Nil
  show ?case by simp
next
  case (Cons a T)
  have upt: "[length D..<length D + length (a # T)]
      = length D # [length (D @ [f a])..<length (D @ [f a]) + length T]"
    by (subst upt_rec) simp
  have first: "step (Inner (length D))
      \<lparr>worker = w, source = finished_sub,
       inners = replicate (length D) finished_sub @ fresh f a # map (fresh f) T,
       delivered = map Next D\<rparr>
     = \<lparr>worker = w, source = finished_sub,
       inners = replicate (length D) finished_sub
          @ \<lparr>pending = [Completed], status = Active\<rparr> # map (fresh f) T,
       delivered = map Next D @ [Next (f a)]\<rparr>"
    by (simp add: nth_after_replicate update_after_replicate emit_fresh)
  have second: "step (Inner (length D))
      \<lparr>worker = w, source = finished_sub,
       inners = replicate (length D) finished_sub
          @ \<lparr>pending = [Completed], status = Active\<rparr> # map (fresh f) T,
       delivered = map Next D @ [Next (f a)]\<rparr>
     = \<lparr>worker = w, source = finished_sub,
       inners = replicate (length (D @ [f a])) finished_sub @ map (fresh f) T,
       delivered = map Next (D @ [f a]) @ (if T = [] then [Completed] else [])\<rparr>"
    by (simp add: nth_after_replicate update_after_replicate emit_last try_complete_def
        all_completed_def source_completed_def status_finished_sub all_finished_replicate
        all_finished_fresh replicate_app_Cons_same replicate_append_same)
  have start: "\<lparr>worker = w, source = finished_sub,
       inners = replicate (length D) finished_sub @ map (fresh f) (a # T),
       delivered = map Next D @ (if a # T = [] then [Completed] else [])\<rparr>
     = \<lparr>worker = w, source = finished_sub,
       inners = replicate (length D) finished_sub @ fresh f a # map (fresh f) T,
       delivered = map Next D\<rparr>"
    by simp
  have "run (concat (map (\<lambda>i. [Inner i, Inner i]) [length D..<length D + length (a # T)]))
      \<lparr>worker = w, source = finished_sub,
       inners = replicate (length D) finished_sub @ map (fresh f) (a # T),
       delivered = map Next D @ (if a # T = [] then [Completed] else [])\<rparr>
    = run (concat (map (\<lambda>i. [Inner i, Inner i])
          [length (D @ [f a])..<length (D @ [f a]) + length T]))
      \<lparr>worker = w, source = finished_sub,
       inners = replicate (length (D @ [f a])) finished_sub @ map (fresh f) T,
       delivered = map Next (D @ [f a]) @ (if T = [] then [Completed] else [])\<rparr>"
    unfolding upt start
    by (simp only: list.map concat.simps append.simps run.simps first second)
  also have "\<dots> = \<lparr>worker = w, source = finished_sub,
       inners = replicate (length D + length (a # T)) finished_sub,
       delivered = map Next (D @ map f (a # T)) @ [Completed]\<rparr>"
    using Cons.IH [of "D @ [f a]"] by simp
  finally show ?case .
qed

lemma serial_run:
  assumes "\<forall>a\<in>set S. w a = Inr (rx_of [f a])"
  shows "run (serial_schedule (length S)) (subscribe_flat_map (flat_map w (rx_of S)))
    = \<lparr>worker = w, source = finished_sub, inners = replicate (length S) finished_sub,
       delivered = map Next (map f S) @ [Completed]\<rparr>"
proof -
  have init: "subscribe_flat_map (flat_map w (rx_of S))
      = \<lparr>worker = w, source = \<lparr>pending = map Next S @ [Completed], status = Active\<rparr>,
         inners = map (fresh f) [], delivered = []\<rparr>"
    by (simp add: subscribe_flat_map_def flat_map_def subscribe_def rx_of_def)
  have sched: "serial_schedule (length S)
      = replicate (length S) Source @ [Source]
        @ concat (map (\<lambda>i. [Inner i, Inner i]) [length ([]::'b list)..<length ([]::'b list) + length S])"
    by (simp add: serial_schedule_def replicate_append_same)
  have "run (serial_schedule (length S)) (subscribe_flat_map (flat_map w (rx_of S)))
      = run (concat (map (\<lambda>i. [Inner i, Inner i])
            [length ([]::'b list)..<length ([]::'b list) + length S]))
          (step Source \<lparr>worker = w, source = \<lparr>pending = [Completed], status = Active\<rparr>,
             inners = map (fresh f) S, delivered = []\<rparr>)"
    unfolding sched init run_append source_phase [OF assms] by simp
  also have "\<dots> = \<lparr>worker = w, source = finished_sub,
       inners = replicate (length ([]::'b list) + length S) finished_sub,
       delivered = map Next ([] @ map f S) @ [Completed]\<rparr>"
    unfolding source_end using inner_phase [of "[]" S w f] by simp
  finally show ?thesis by simp
qed

lemma process_command_timeout_result:
  "process_command_timeout cmd = Inr (rx_of [command_result cmd])"
  by (simp add: process_command_timeout_def process_command_def command_result_def)

lemma run_program_flow:
  "flow_inv command_result (image_mset command_result (mset cmds)) (run_program cmds sched)"
  unfolding run_program_def process_commands_def
  by (rule flow_inv_run [OF flow_inv_subscribe]) (simp add: process_command_timeout_result)

lemmas machine_defs = subscribe_flat_map_def flat_map_def subscribe_def rx_of_def emit_def
  fail_def cancel_def try_complete_def all_completed_def source_completed_def

lemma failing_example_state:
  "run [Source, Source, Inner 0] (subscribe_flat_map failing_example)
   = \<lparr>worker = fm_worker failing_example,
      source = \<lparr>pending = [Completed], status = Active\<rparr>,
      inners = [\<lparr>pending = [Error TimeoutError], status = Active\<rparr>,
                \<lparr>pending = [Next ''b'', Completed], status = Active\<rparr>],
      delivered = [Next ''a'']\<rparr>"
  by (simp add: failing_example_def machine_defs)

section \<open>The claims\<close>

text \<open>
  C1: for every finite sequence of items \<open>S\<close> and every worker that maps each item \<open>a\<close> to
  an Observable emitting the single value \<open>f a\<close> and then \<open>Completed\<close>, a subscription to
  \<open>flat_map worker (of S)\<close>, under any schedule, once no stream has anything left to push,
  has delivered \<open>Next\<close> events whose payloads are the worker outputs for \<open>S\<close> (as a set, and
  each as often as it is produced), followed by exactly one \<open>Completed\<close>. At any moment,
  \<open>Completed\<close> has been delivered at most once, and only with the source completed and every
  inner subscription spawned completed. The serial schedule reaches that state and delivers
  the outputs in the order of \<open>S\<close>.
\<close>

theorem flat_map_merges_all_results:
  assumes w: "\<forall>a\<in>set S. w a = Inr (rx_of [f a])"
    and c: "c = run sched (subscribe_flat_map (flat_map w (rx_of S)))"
  shows "(quiescent c \<longrightarrow>
      delivered c = map Next (next_payloads (delivered c)) @ [Completed] \<and>
      set (next_payloads (delivered c)) = f ` set S \<and>
      mset (next_payloads (delivered c)) = image_mset f (mset S)) \<and>
    length (filter (\<lambda>n. n = Completed) (delivered c)) \<le> 1 \<and>
    (Completed \<in> set (delivered c) \<longrightarrow>
      source_completed c \<and> list_all (\<lambda>s. status s = Finished) (inners c) \<and> open_count c = 0) \<and>
    quiescent (run (serial_schedule (length S)) (subscribe_flat_map (flat_map w (rx_of S)))) \<and>
    delivered (run (serial_schedule (length S)) (subscribe_flat_map (flat_map w (rx_of S))))
      = map Next (map f S) @ [Completed]"
proof -
  have flow: "flow_inv f (image_mset f (mset S)) c"
    unfolding c by (rule flow_inv_run [OF flow_inv_subscribe [OF w]])
  have tree: "tree_inv c" unfolding c by (rule tree_inv_run [OF tree_inv_subscribe])
  have 1: "quiescent c \<longrightarrow>
      delivered c = map Next (next_payloads (delivered c)) @ [Completed] \<and>
      set (next_payloads (delivered c)) = f ` set S \<and>
      mset (next_payloads (delivered c)) = image_mset f (mset S)"
  proof
    assume q: "quiescent c"
    from flow_inv_quiescent [OF flow q]
    have d: "delivered c = map Next (next_payloads (delivered c)) @ [Completed]"
      and m: "mset (next_payloads (delivered c)) = image_mset f (mset S)" by simp_all
    from m have "set_mset (mset (next_payloads (delivered c))) = set_mset (image_mset f (mset S))"
      by simp
    then have "set (next_payloads (delivered c)) = f ` set S" by simp
    with d m show "delivered c = map Next (next_payloads (delivered c)) @ [Completed] \<and>
      set (next_payloads (delivered c)) = f ` set S \<and>
      mset (next_payloads (delivered c)) = image_mset f (mset S)" by blast
  qed
  have "delivered c = map Next (next_payloads (delivered c))
      @ (if all_completed c then [Completed] else [])"
    using flow by (simp add: flow_inv_def)
  then have "filter (\<lambda>n. n = Completed) (delivered c)
      = filter (\<lambda>n. n = Completed) (map Next (next_payloads (delivered c))
          @ (if all_completed c then [Completed] else []))" by simp
  also have "length \<dots> \<le> 1" by (simp add: filter_map comp_def)
  finally have 2: "length (filter (\<lambda>n. n = Completed) (delivered c)) \<le> 1" .
  have 3: "Completed \<in> set (delivered c) \<longrightarrow>
      source_completed c \<and> list_all (\<lambda>s. status s = Finished) (inners c) \<and> open_count c = 0"
    using tree all_completed_open_count [of c] by (auto simp: tree_inv_def all_completed_def)
  have 4: "quiescent (run (serial_schedule (length S)) (subscribe_flat_map (flat_map w (rx_of S))))"
    unfolding serial_run [OF w]
    by (simp add: quiescent_def idle_def emit_def finished_sub_def list_all_iff)
  have 5: "delivered (run (serial_schedule (length S)) (subscribe_flat_map (flat_map w (rx_of S))))
      = map Next (map f S) @ [Completed]"
    unfolding serial_run [OF w] by simp
  from 1 2 3 4 5 show ?thesis by blast
qed

theorem flat_map_merges_all_results_witness:
  "quiescent (run_program main_commands (serial_schedule (length main_commands))) \<and>
   delivered (run_program main_commands (serial_schedule (length main_commands)))
     = [Next ''echo before'', Next ''awake'', Next ''echo after'', Completed] \<and>
   set (next_payloads (delivered (run_program main_commands (serial_schedule (length main_commands)))))
     = {''echo before'', ''awake'', ''echo after''} \<and>
   source_completed (run_program main_commands (serial_schedule (length main_commands))) \<and>
   open_count (run_program main_commands (serial_schedule (length main_commands))) = 0"
proof -
  have w: "\<forall>a\<in>set main_commands. process_command_timeout a = Inr (rx_of [command_result a])"
    by (simp add: process_command_timeout_result)
  note T = flat_map_merges_all_results [OF w refl, of "serial_schedule (length main_commands)"]
  have r: "map command_result main_commands = [''echo before'', ''awake'', ''echo after'']"
    by (simp add: main_commands_def command_result_def startswith_def)
  from T have q: "quiescent (run_program main_commands (serial_schedule (length main_commands)))"
    by (simp add: run_program_def process_commands_def)
  from T have d: "delivered (run_program main_commands (serial_schedule (length main_commands)))
     = map Next (map command_result main_commands) @ [Completed]"
    by (simp add: run_program_def process_commands_def)
  from T d have o: "source_completed (run_program main_commands (serial_schedule (length main_commands))) \<and>
     open_count (run_program main_commands (serial_schedule (length main_commands))) = 0"
    by (simp add: run_program_def process_commands_def)
  from q d o show ?thesis by (simp add: r next_payloads_map_Next)
qed

text \<open>
  C2: at the commands \<^verbatim>\<open>["echo before", "echo after"]\<close> the stream that line 34 subscribes
  \<^verbatim>\<open>print\<close> to delivers the two echoed strings and a bare \<open>Completed\<close>: its only values are
  the two commands. The reduced values of section 4.3, one per notification and ending with
  \<^verbatim>\<open>"No more commands to process. Shutting down!"\<close>, are what \<^verbatim>\<open>process_errors\<close> makes of
  these notifications, but \<^verbatim>\<open>process_commands\<close> never applies \<^verbatim>\<open>process_errors\<close>, so the
  message is not among the values delivered.
\<close>

theorem process_commands_skips_process_errors:
  "delivered (run_program [''echo before'', ''echo after'']
       [Source, Source, Source, Inner 0, Inner 0, Inner 1, Inner 1])
     = [Next ''echo before'', Next ''echo after'', Completed] \<and>
   quiescent (run_program [''echo before'', ''echo after'']
       [Source, Source, Source, Inner 0, Inner 0, Inner 1, Inner 1]) \<and>
   next_payloads (delivered (run_program [''echo before'', ''echo after'']
       [Source, Source, Source, Inner 0, Inner 0, Inner 1, Inner 1]))
     = [''echo before'', ''echo after''] \<and>
   ''No more commands to process. Shutting down!''
     \<notin> set (next_payloads (delivered (run_program [''echo before'', ''echo after'']
         [Source, Source, Source, Inner 0, Inner 0, Inner 1, Inner 1]))) \<and>
   map process_errors (delivered (run_program [''echo before'', ''echo after'']
       [Source, Source, Source, Inner 0, Inner 0, Inner 1, Inner 1]))
     = [''echo before'', ''echo after'', ''No more commands to process. Shutting down!'']"
proof -
  let ?c = "run_program [''echo before'', ''echo after'']
      [Source, Source, Source, Inner 0, Inner 0, Inner 1, Inner 1]"
  have c: "?c = \<lparr>worker = process_command_timeout,
      source = \<lparr>pending = [], status = Finished\<rparr>,
      inners = [\<lparr>pending = [], status = Finished\<rparr>, \<lparr>pending = [], status = Finished\<rparr>],
      delivered = [Next ''echo before'', Next ''echo after'', Completed]\<rparr>"
    by (simp add: run_program_def process_commands_def machine_defs
        process_command_timeout_def process_command_def startswith_def)
  show ?thesis
    unfolding c by (simp add: quiescent_def idle_def emit_def process_errors_def)
qed

text \<open>
  C3: \<^verbatim>\<open>process_errors\<close> returns the value of a \<open>Next\<close> unchanged, the fixed advisory
  string for an \<open>Error\<close> of any cause, and the fixed shutdown string for \<open>Completed\<close>. The
  dispatch calls exactly one handler, the one of the notification's variant, exactly once
  and with the notification's payload, and returns that handler's result: with handlers
  that log their invocation, the log grows by that one call.
\<close>

theorem process_errors_dispatch:
  "process_errors (Next x) = x \<and>
   process_errors (Error err) = ''Your command could not be processed. Please try again.'' \<and>
   process_errors Completed = ''No more commands to process. Shutting down!'' \<and>
   process_errors_logged notif log = (process_errors notif, log @ [call_of notif]) \<and>
   accept notif
     (\<lambda>x. logging (Called_on_next x) (on_next x))
     (\<lambda>err. logging (Called_on_error err) (on_error err))
     (\<lambda>u. logging Called_on_completed (on_completed u)) log
     = (accept notif on_next on_error on_completed, log @ [call_of notif])"
  by (cases notif) (simp_all add: process_errors_def process_errors_logged_def logging_def)

text \<open>
  C4: when, in a reachable state of a flat-map subscription, the stream given the turn
  pushes \<open>Error e\<close> (the source, an inner stream, or the worker raising), the merged stream
  delivers \<open>Error e\<close> as its first and only terminal event, nothing is delivered afterwards
  under any further schedule, no stream stays open, and the source subscription and every
  other inner subscription that was open is cancelled.
\<close>

theorem flat_map_fail_fast:
  assumes reach: "c = run sched0 (subscribe_flat_map fm)"
    and push: "pushes_error ch c e"
  shows "delivered (step ch c) = delivered c @ [Error e] \<and>
    delivered c = map Next (next_payloads (delivered c)) \<and>
    (\<forall>sched. delivered (run sched (step ch c)) = delivered c @ [Error e]) \<and>
    status (source (step ch c)) \<noteq> Active \<and>
    (\<forall>s\<in>set (inners (step ch c)). status s \<noteq> Active) \<and>
    (\<forall>i. ch = Inner i \<and> status (source c) = Active \<longrightarrow>
       status (source (step ch c)) = Cancelled) \<and>
    (\<forall>j<length (inners c). ch \<noteq> Inner j \<and> status (inners c ! j) = Active \<longrightarrow>
       status (inners (step ch c) ! j) = Cancelled)"
proof -
  have inv: "tree_inv c" unfolding reach by (rule tree_inv_run [OF tree_inv_subscribe])
  from pushes_error_open [OF push] inv have nt: "\<not> terminated (delivered c)"
    by (auto simp: tree_inv_def)
  from inv have wf: "well_formed (delivered c)" by (simp add: tree_inv_def)
  from pushes_error_step [OF push] obtain c0 where
    st: "step ch c = fail e c0" and d0: "delivered c0 = delivered c"
    and len: "length (inners c0) = length (inners c)"
    and others: "\<forall>j<length (inners c). ch \<noteq> Inner j \<longrightarrow> inners c0 ! j = inners c ! j"
    and src: "\<forall>i. ch = Inner i \<longrightarrow> source c0 = source c"
    by blast
  have closed: "closed_tree (step ch c)" unfolding st by (rule closed_tree_fail)
  have 1: "delivered (step ch c) = delivered c @ [Error e]" by (simp add: st fail_fields d0)
  have 2: "delivered c = map Next (next_payloads (delivered c))"
    by (rule well_formed_open [OF wf nt])
  have 3: "\<forall>sched. delivered (run sched (step ch c)) = delivered c @ [Error e]"
    by (simp add: closed_tree_run [OF closed] 1)
  have 4: "status (source (step ch c)) \<noteq> Active"
    and 5: "\<forall>s\<in>set (inners (step ch c)). status s \<noteq> Active"
    using closed by (simp_all add: closed_tree_def list_all_iff)
  have s6: "source (step ch c) = cancel (source c0)"
    and s7: "inners (step ch c) = map cancel (inners c0)"
    by (simp_all add: st fail_fields)
  have 6: "\<forall>i. ch = Inner i \<and> status (source c) = Active \<longrightarrow>
       status (source (step ch c)) = Cancelled"
    unfolding s6 using src by (auto simp: cancel_active)
  have 7: "\<forall>j<length (inners c). ch \<noteq> Inner j \<and> status (inners c ! j) = Active \<longrightarrow>
       status (inners (step ch c) ! j) = Cancelled"
    unfolding s7 using others len by (auto simp: cancel_active)
  from 1 2 3 4 5 6 7 show ?thesis by blast
qed

theorem flat_map_fail_fast_witness:
  "pushes_error (Inner 0) (run [Source, Source, Inner 0] (subscribe_flat_map failing_example))
     TimeoutError \<and>
   delivered (step (Inner 0) (run [Source, Source, Inner 0] (subscribe_flat_map failing_example)))
     = [Next ''a'', Error TimeoutError] \<and>
   delivered (run [Inner 1, Source, Inner 1]
       (step (Inner 0) (run [Source, Source, Inner 0] (subscribe_flat_map failing_example))))
     = [Next ''a'', Error TimeoutError] \<and>
   status (source (step (Inner 0)
       (run [Source, Source, Inner 0] (subscribe_flat_map failing_example)))) = Cancelled \<and>
   status (inners (step (Inner 0)
       (run [Source, Source, Inner 0] (subscribe_flat_map failing_example))) ! 1) = Cancelled"
proof -
  let ?c = "run [Source, Source, Inner 0] (subscribe_flat_map failing_example)"
  note c = failing_example_state
  have p: "pushes_error (Inner 0) ?c TimeoutError"
    unfolding c by (simp add: emit_def)
  have d: "delivered ?c = [Next ''a'']" unfolding c by simp
  have s: "status (source ?c) = Active" unfolding c by simp
  have l: "1 < length (inners ?c)" unfolding c by simp
  have i: "Inner 0 \<noteq> Inner 1 \<and> status (inners ?c ! 1) = Active" unfolding c by simp
  note T = flat_map_fail_fast [OF refl p]
  note T1 = T [THEN conjunct1]
  note T3 = T [THEN conjunct2, THEN conjunct2, THEN conjunct1, rule_format,
      of "[Inner 1, Source, Inner 1]"]
  note T6 = T [THEN conjunct2, THEN conjunct2, THEN conjunct2, THEN conjunct2, THEN conjunct2,
      THEN conjunct1, rule_format, of 0, OF conjI [OF refl s]]
  note T7 = T [THEN conjunct2, THEN conjunct2, THEN conjunct2, THEN conjunct2, THEN conjunct2,
      THEN conjunct2, rule_format, OF l i]
  have r1: "delivered (step (Inner 0) ?c) = [Next ''a'', Error TimeoutError]"
    using T1 by (simp only: d append.simps)
  have r3: "delivered (run [Inner 1, Source, Inner 1] (step (Inner 0) ?c))
      = [Next ''a'', Error TimeoutError]"
    using T3 by (simp only: d append.simps)
  show ?thesis by (intro conjI p r1 r3 T6 T7)
qed

text \<open>
  C5: the notification sequence delivered by a plain subscription (a source or an inner
  stream) and by a flat-map subscription (the merged stream), and so by the program's, is
  well formed: \<open>Next\<close> events, then at most one terminal event, which is the last event.
\<close>

theorem notification_sequences_well_formed:
  "well_formed (deliveries n (subscribe obs)) \<and>
   length (filter is_terminal (deliveries n (subscribe obs))) \<le> 1 \<and>
   (\<forall>i<length (deliveries n (subscribe obs)).
      is_terminal (deliveries n (subscribe obs) ! i) \<longrightarrow>
      Suc i = length (deliveries n (subscribe obs))) \<and>
   well_formed (delivered (run sched (subscribe_flat_map fm))) \<and>
   length (filter is_terminal (delivered (run sched (subscribe_flat_map fm)))) \<le> 1 \<and>
   (\<forall>i<length (delivered (run sched (subscribe_flat_map fm))).
      is_terminal (delivered (run sched (subscribe_flat_map fm)) ! i) \<longrightarrow>
      Suc i = length (delivered (run sched (subscribe_flat_map fm)))) \<and>
   well_formed (delivered (run_program cmds sched'))"
proof -
  have a: "well_formed (deliveries n (subscribe obs))" by (rule well_formed_deliveries)
  have "tree_inv (run sched (subscribe_flat_map fm))"
    by (rule tree_inv_run [OF tree_inv_subscribe])
  then have b: "well_formed (delivered (run sched (subscribe_flat_map fm)))"
    by (simp add: tree_inv_def)
  have "tree_inv (run_program cmds sched')"
    unfolding run_program_def by (rule tree_inv_run [OF tree_inv_subscribe])
  then have c: "well_formed (delivered (run_program cmds sched'))"
    by (simp add: tree_inv_def)
  show ?thesis
    using a b c well_formed_terminal_count [OF a] well_formed_terminal_count [OF b]
      well_formed_terminal_last [OF a] well_formed_terminal_last [OF b]
    by blast
qed

theorem notification_sequences_well_formed_witness:
  "deliveries 2 (subscribe (rx_of [''x''])) = [Next ''x'', Completed] \<and>
   is_terminal (deliveries 2 (subscribe (rx_of [''x''])) ! 1) \<and>
   Suc 1 = length (deliveries 2 (subscribe (rx_of [''x'']))) \<and>
   well_formed (deliveries 2 (subscribe (rx_of [''x'']))) \<and>
   well_formed (delivered (run [Source, Source, Inner 0] (subscribe_flat_map failing_example))) \<and>
   well_formed (delivered (run_program main_commands (serial_schedule 3)))"
proof -
  have d: "deliveries 2 (subscribe (rx_of [''x''])) = [Next ''x'', Completed]"
    by (simp add: deliveries_rx_of)
  note T = notification_sequences_well_formed [of 2 "rx_of [''x'']"
      "[Source, Source, Inner 0]" failing_example main_commands "serial_schedule 3"]
  from T d show ?thesis by simp
qed

text \<open>
  C6: a subscription to \<open>of(items)\<close> delivers \<open>Next(item)\<close> for each item in the given
  order and then exactly one \<open>Completed\<close>, and nothing after it. Two subscriptions to the
  same Observable are independent: however their turns are interleaved, each receives the
  prefix of that sequence that its own number of turns gives.
\<close>

theorem rx_of_delivers_in_order:
  "deliveries n (subscribe (rx_of items)) = take n (map Next items @ [Completed]) \<and>
   deliveries (Suc (length items) + k) (subscribe (rx_of items)) = map Next items @ [Completed] \<and>
   next_payloads (deliveries (Suc (length items)) (subscribe (rx_of items))) = items \<and>
   length (filter (\<lambda>ev. ev = Completed)
     (deliveries (Suc (length items) + k) (subscribe (rx_of items)))) = 1 \<and>
   deliveries_two turns (subscribe (rx_of items)) (subscribe (rx_of items))
     = (take (length (filter (\<lambda>b. b) turns)) (map Next items @ [Completed]),
        take (length (filter Not turns)) (map Next items @ [Completed]))"
  by (simp add: deliveries_two_independent deliveries_rx_of next_payloads_append
      next_payloads_map_Next filter_map comp_def)

text \<open>
  C7: for every command string, \<^verbatim>\<open>process_command\<close> returns an Observable that emits
  exactly one \<open>Next\<close> with a result string and then \<open>Completed\<close>; for \<^verbatim>\<open>"bogus"\<close> the
  value is \<^verbatim>\<open>"Invalid command bogus provided."\<close>.
\<close>

theorem process_command_emits_one_result:
  "(\<exists>r. process_command cmd = Inr (rx_of [r]) \<and>
        (\<forall>n. worker_deliveries n (process_command cmd) = take n [Next r, Completed])) \<and>
   process_command ''bogus'' = Inr (rx_of [''Invalid command bogus provided.'']) \<and>
   worker_deliveries 2 (process_command ''bogus'')
     = [Next ''Invalid command bogus provided.'', Completed]"
proof -
  obtain r where r: "process_command cmd = Inr (rx_of [r])"
    using process_command_single by blast
  have a: "\<forall>n. worker_deliveries n (process_command cmd) = take n [Next r, Completed]"
    by (simp add: r deliveries_rx_of)
  have b: "process_command ''bogus'' = Inr (rx_of [''Invalid command bogus provided.''])"
    by (simp add: process_command_def startswith_def)
  have c: "worker_deliveries 2 (process_command ''bogus'')
     = [Next ''Invalid command bogus provided.'', Completed]"
    by (simp add: b deliveries_rx_of)
  from r a b c show ?thesis by blast
qed

text \<open>
  C8: the timeout variant is an identity pass-through: for every command,
  \<^verbatim>\<open>process_command_timeout(cmd)\<close> is the Observable \<^verbatim>\<open>process_command(cmd)\<close>, and a
  subscription to it delivers the same notification sequence, turn by turn.
\<close>

theorem process_command_timeout_passthrough:
  "process_command_timeout cmd = process_command cmd \<and>
   worker_deliveries n (process_command_timeout cmd) = worker_deliveries n (process_command cmd)"
  by (simp add: process_command_timeout_def)

text \<open>
  C9: for every input string \<^verbatim>\<open>process_command\<close> (and so \<^verbatim>\<open>process_command_timeout\<close>)
  returns an Observable and does not raise; the final \<^verbatim>\<open>else\<close> branch takes every string
  that starts with neither \<^verbatim>\<open>echo\<close> nor \<^verbatim>\<open>sleep\<close>. In the program's subscription no
  turn pushes an \<open>Error\<close>, so the path of a raising worker is never taken and no \<open>Error\<close>
  is delivered.
\<close>

theorem process_command_never_raises:
  "(\<exists>obs. process_command cmd = Inr obs) \<and>
   (\<exists>obs. process_command_timeout cmd = Inr obs) \<and>
   process_command cmd \<noteq> Inl e \<and>
   (\<not> startswith cmd ''echo'' \<and> \<not> startswith cmd ''sleep'' \<longrightarrow>
      process_command cmd = Inr (rx_of [''Invalid command '' @ cmd @ '' provided.''])) \<and>
   \<not> pushes_error ch (run_program cmds sched) e \<and>
   Error e \<notin> set (delivered (run_program cmds sched))"
proof -
  have a: "\<exists>obs. process_command cmd = Inr obs" using process_command_single by blast
  then have b: "\<exists>obs. process_command_timeout cmd = Inr obs"
    by (simp add: process_command_timeout_def)
  from a have c: "process_command cmd \<noteq> Inl e" by auto
  have d: "\<not> startswith cmd ''echo'' \<and> \<not> startswith cmd ''sleep'' \<longrightarrow>
      process_command cmd = Inr (rx_of [''Invalid command '' @ cmd @ '' provided.''])"
    by (simp add: process_command_def)
  note flow = run_program_flow [of cmds sched]
  from a b c d flow_inv_no_pushes_error [OF flow] flow_inv_no_error [OF flow]
  show ?thesis by blast
qed

theorem process_command_never_raises_witness:
  "\<not> startswith ''bogus'' ''echo'' \<and> \<not> startswith ''bogus'' ''sleep'' \<and>
   process_command ''bogus'' = Inr (rx_of [''Invalid command bogus provided.'']) \<and>
   \<not> pushes_error Source (run_program [''bogus''] [Source]) WorkerInvocationError \<and>
   Error WorkerInvocationError \<notin> set (delivered (run_program [''bogus''] [Source, Source, Inner 0, Inner 0]))"
proof -
  have b: "\<not> startswith ''bogus'' ''echo'' \<and> \<not> startswith ''bogus'' ''sleep''"
    by (simp add: startswith_def)
  from b process_command_never_raises [of "''bogus''" WorkerInvocationError Source "[''bogus'']" "[Source]"]
    process_command_never_raises [of "''bogus''" WorkerInvocationError Source "[''bogus'']"
      "[Source, Source, Inner 0, Inner 0]"]
  show ?thesis by simp
qed

text \<open>
  C10: \<^verbatim>\<open>process_command\<close> classifies by prefix, \<^verbatim>\<open>echo\<close> first, then \<^verbatim>\<open>sleep\<close>, then
  the fallback: a string starting with \<^verbatim>\<open>echo\<close> is emitted back unchanged, a string
  starting with \<^verbatim>\<open>sleep\<close> (and not \<^verbatim>\<open>echo\<close>) yields \<^verbatim>\<open>"awake"\<close> whatever follows, and
  any other string yields \<^verbatim>\<open>"Invalid command {cmd} provided."\<close> with the whole command.
\<close>

theorem process_command_classification:
  "(startswith cmd ''echo'' \<longrightarrow> process_command cmd = Inr (rx_of [cmd])) \<and>
   (\<not> startswith cmd ''echo'' \<and> startswith cmd ''sleep'' \<longrightarrow>
      process_command cmd = Inr (rx_of [''awake''])) \<and>
   (\<not> startswith cmd ''echo'' \<and> \<not> startswith cmd ''sleep'' \<longrightarrow>
      process_command cmd = Inr (rx_of [''Invalid command '' @ cmd @ '' provided.''])) \<and>
   process_command (''echo'' @ rest) = Inr (rx_of [''echo'' @ rest]) \<and>
   process_command (''sleep'' @ rest) = Inr (rx_of [''awake''])"
  by (simp add: process_command_def startswith_def)

theorem process_command_classification_witness:
  "startswith ''echoXYZ'' ''echo'' \<and> process_command ''echoXYZ'' = Inr (rx_of [''echoXYZ'']) \<and>
   \<not> startswith ''sleep 5'' ''echo'' \<and> startswith ''sleep 5'' ''sleep'' \<and>
   process_command ''sleep 5'' = Inr (rx_of [''awake'']) \<and>
   \<not> startswith ''bogus'' ''echo'' \<and> \<not> startswith ''bogus'' ''sleep'' \<and>
   process_command ''bogus'' = Inr (rx_of [''Invalid command bogus provided.''])"
proof -
  have e: "startswith ''echoXYZ'' ''echo''" by (simp add: startswith_def)
  have s: "\<not> startswith ''sleep 5'' ''echo'' \<and> startswith ''sleep 5'' ''sleep''"
    by (simp add: startswith_def)
  have b: "\<not> startswith ''bogus'' ''echo'' \<and> \<not> startswith ''bogus'' ''sleep''"
    by (simp add: startswith_def)
  show ?thesis
    using e s b process_command_classification [of "''echoXYZ''"]
      process_command_classification [of "''sleep 5''"]
      process_command_classification [of "''bogus''"]
    by simp
qed

end
